theory Spec2Isabelle
  imports Main "HOL-Library.Sublist"
begin

section \<open>Text primitives\<close>

text \<open>
  The playlist merger works on Python text. A text is modelled as a \<open>string\<close>, a
  list of 8-bit characters read as the code points U+0000 to U+00FF; a text with a
  character beyond U+00FF is outside the model. On this range Python's
  \<^verbatim>\<open>str.lower\<close> maps each character to one character: A to Z and the
  capital letters U+00C0 to U+00DE (but for the multiplication sign U+00D7) move up
  by 32, every other character is kept. \<^verbatim>\<open>str.isspace\<close> holds of the
  characters listed in \<open>is_space\<close>, which include U+0085 and U+00A0.
\<close>

definition latin1_upper :: string where
  "latin1_upper =
     [CHR 0xC0, CHR 0xC1, CHR 0xC2, CHR 0xC3, CHR 0xC4, CHR 0xC5, CHR 0xC6,
      CHR 0xC7, CHR 0xC8, CHR 0xC9, CHR 0xCA, CHR 0xCB, CHR 0xCC, CHR 0xCD,
      CHR 0xCE, CHR 0xCF, CHR 0xD0, CHR 0xD1, CHR 0xD2, CHR 0xD3, CHR 0xD4,
      CHR 0xD5, CHR 0xD6, CHR 0xD8, CHR 0xD9, CHR 0xDA, CHR 0xDB, CHR 0xDC,
      CHR 0xDD, CHR 0xDE]"

definition latin1_lower :: string where
  "latin1_lower =
     [CHR 0xE0, CHR 0xE1, CHR 0xE2, CHR 0xE3, CHR 0xE4, CHR 0xE5, CHR 0xE6,
      CHR 0xE7, CHR 0xE8, CHR 0xE9, CHR 0xEA, CHR 0xEB, CHR 0xEC, CHR 0xED,
      CHR 0xEE, CHR 0xEF, CHR 0xF0, CHR 0xF1, CHR 0xF2, CHR 0xF3, CHR 0xF4,
      CHR 0xF5, CHR 0xF6, CHR 0xF8, CHR 0xF9, CHR 0xFA, CHR 0xFB, CHR 0xFC,
      CHR 0xFD, CHR 0xFE]"

definition lower_char :: "char \<Rightarrow> char" where
  "lower_char c =
     (case map_of (zip (''ABCDEFGHIJKLMNOPQRSTUVWXYZ'' @ latin1_upper)
                       (''abcdefghijklmnopqrstuvwxyz'' @ latin1_lower)) c of
        Some d \<Rightarrow> d
      | None \<Rightarrow> c)"

definition lower :: "string \<Rightarrow> string" where
  "lower s = map lower_char s"

definition is_space :: "char \<Rightarrow> bool" where
  "is_space c = (c \<in> set [CHR 0x09, CHR 0x0A, CHR 0x0B, CHR 0x0C, CHR 0x0D,
                            CHR 0x1C, CHR 0x1D, CHR 0x1E, CHR 0x1F, CHR '' '',
                            CHR 0x85, CHR 0xA0])"

definition strip :: "string \<Rightarrow> string" where
  "strip s = rev (dropWhile is_space (rev (dropWhile is_space s)))"

text \<open>\<^verbatim>\<open>s.startswith(p)\<close> and \<^verbatim>\<open>sub in s\<close>.\<close>

fun startswith :: "string \<Rightarrow> string \<Rightarrow> bool" where
  "startswith s [] = True"
| "startswith [] (p # ps) = False"
| "startswith (c # cs) (p # ps) = (c = p \<and> startswith cs ps)"

fun str_contains :: "string \<Rightarrow> string \<Rightarrow> bool" where
  "str_contains [] sub = (sub = [])"
| "str_contains (c # cs) sub = (startswith (c # cs) sub \<or> str_contains cs sub)"

text \<open>\<^verbatim>\<open>content.split('\n')\<close>: the result is never empty, and a text that ends
  with a newline yields a last empty line.\<close>

fun split_nl :: "string \<Rightarrow> string list" where
  "split_nl [] = [[]]"
| "split_nl (c # cs) =
     (if c = CHR 0x0A then [] # split_nl cs
      else (case split_nl cs of l # ls \<Rightarrow> (c # l) # ls | [] \<Rightarrow> [[c]]))"

section \<open>Configuration constants\<close>

definition SOURCES :: "string list" where
  "SOURCES =
     [''https://raw.githubusercontent.com/Jitendra-unatti/fancode/refs/heads/main/data/fancode.m3u'',
      ''https://raw.githubusercontent.com/alex8875/m3u/refs/heads/main/jtv.m3u'',
      ''https://raw.githubusercontent.com/alex8875/m3u/refs/heads/main/z5.m3u'']"

definition EXCLUDED_GROUPS :: "string list" where
  "EXCLUDED_GROUPS = [''devotional'', ''music'', ''educational'']"

definition EXCLUDE_LANGUAGES :: "string list" where
  "EXCLUDE_LANGUAGES =
     [''tamil'', ''telugu'', ''oriya'', ''gujarati'', ''kannada'', ''malayalam'',
      ''bhojpuri'', ''punjabi'', ''marathi'']"

definition EPG_URL :: string where
  "EPG_URL = ''https://raw.githubusercontent.com/ibyb007/myepg/main/epg.xml.gz''"

section \<open>Category and title extraction, exclusion predicates\<close>

text \<open>The attribute key with its opening quote, and the closing quote.\<close>

definition group_key :: string where
  \<open>group_key = ''group-title="''\<close>

definition dquote :: char where
  \<open>dquote = CHR ''"''\<close>

text \<open>
  \<^verbatim>\<open>re.search(r'group-title="([^"]*)"', s, re.IGNORECASE)\<close>, returning group 1 of the
  leftmost match. At a start position the key must match without regard to case; the
  group is then the run of characters up to the next double quote, which must exist.
  Among the code points up to U+00FF a letter of the key is matched by itself and by
  its ASCII capital only, which is what the comparison of the lowercased text says.
\<close>

fun re_group_title :: "string \<Rightarrow> string option" where
  "re_group_title [] = None"
| "re_group_title (c # cs) =
     (if startswith (lower (c # cs)) group_key then
        (let rest = drop (length group_key) (c # cs);
             v = takeWhile (\<lambda>x. x \<noteq> dquote) rest
         in if length v < length rest then Some v else re_group_title cs)
      else re_group_title cs)"

definition get_group_title :: "string \<Rightarrow> string" where
  "get_group_title extinf_line =
     (case re_group_title extinf_line of Some g \<Rightarrow> lower g | None \<Rightarrow> [])"

definition is_excluded_group :: "string \<Rightarrow> bool" where
  "is_excluded_group extinf_line =
     (let lower_line = lower extinf_line
      in list_ex (\<lambda>group. str_contains lower_line (group_key @ group @ [dquote]))
           EXCLUDED_GROUPS)"

definition is_excluded_language :: "string \<Rightarrow> bool" where
  "is_excluded_language title =
     (let lower_title = lower title
      in list_ex (\<lambda>lang. str_contains lower_title lang) EXCLUDE_LANGUAGES)"

text \<open>
  \<^verbatim>\<open>re.search(r',(.+)$', s)\<close>, returning group 1 of the leftmost match: the start
  positions are tried from the left, so the first comma that is followed by at least one
  character up to the end of the text matches, and the greedy group takes all that
  follows it. The dot does not match a newline, and the end anchor also matches
  before a single final newline.
\<close>

fun re_title :: "string \<Rightarrow> string option" where
  "re_title [] = None"
| "re_title (c # cs) =
     (if c = CHR '','' then
        (let g = takeWhile (\<lambda>x. x \<noteq> CHR 0x0A) cs;
             r = dropWhile (\<lambda>x. x \<noteq> CHR 0x0A) cs
         in if g \<noteq> [] \<and> (r = [] \<or> r = [CHR 0x0A]) then Some g else re_title cs)
      else re_title cs)"

text \<open>Lines 92 and 93 of the source: the title of a directive line.\<close>

definition extract_title :: "string \<Rightarrow> string" where
  "extract_title extinf = (case re_title extinf of Some g \<Rightarrow> strip g | None \<Rightarrow> [])"

section \<open>Insertion-ordered dictionaries\<close>

text \<open>
  An \<^verbatim>\<open>OrderedDict\<close> is the list of its items in insertion order.
  \<^verbatim>\<open>k in d\<close> is \<open>od_contains\<close>; \<^verbatim>\<open>d[k] = v\<close> is \<open>od_set\<close>, which
  replaces the value of a present key in place and appends an absent one.
\<close>

type_synonym ('k, 'v) odict = "('k \<times> 'v) list"

definition od_contains :: "('k, 'v) odict \<Rightarrow> 'k \<Rightarrow> bool" where
  "od_contains d k = (k \<in> set (map fst d))"

fun od_set :: "('k, 'v) odict \<Rightarrow> 'k \<Rightarrow> 'v \<Rightarrow> ('k, 'v) odict" where
  "od_set [] k v = [(k, v)]"
| "od_set ((k', v') # d) k v =
     (if k' = k then (k', v) # d else (k', v') # od_set d k v)"

type_synonym entries = "(string, string list) odict"

section \<open>The block parser\<close>

text \<open>
  The parser walks the list of lines with an index. Every read \<^verbatim>\<open>lines[i]\<close> is
  \<open>line_at\<close>, which fails as Python does when the index is out of range. The two
  counters of the source only feed a log message and are left out, as are the other
  prints.
\<close>

datatype error = IndexError

definition line_at :: "string list \<Rightarrow> nat \<Rightarrow> error + string" where
  "line_at lines i = (if i < length lines then Inr (lines ! i) else Inl IndexError)"

text \<open>Lines 85, 86 (and 99, 100): the inner loop of the skip of an excluded block.\<close>

function skip_while :: "string list \<Rightarrow> nat \<Rightarrow> error + nat" where
  "skip_while lines i =
     (if i < length lines then
        (case line_at lines i of
           Inl e \<Rightarrow> Inl e
         | Inr l \<Rightarrow>
             if startswith l ''#'' \<or> strip l = [] then skip_while lines (i + 1)
             else Inr i)
      else Inr i)"
  by pat_completeness auto
termination
  by (relation "measure (\<lambda>(lines, i). length lines - i)") auto

text \<open>Lines 84 to 88 (and 98 to 102): the skip of an excluded block whose directive
  is at index \<open>i\<close>; the result is the index at which the main loop goes on.\<close>

definition skip_block :: "string list \<Rightarrow> nat \<Rightarrow> error + nat" where
  "skip_block lines i =
     (case skip_while lines (i + 1) of
        Inl e \<Rightarrow> Inl e
      | Inr j \<Rightarrow>
          if j < length lines then
            (case line_at lines j of
               Inl e \<Rightarrow> Inl e
             | Inr l \<Rightarrow> if \<not> startswith l ''#'' then Inr (j + 1) else Inr j)
          else Inr j)"

text \<open>Lines 108 to 114: the attribute lines of a retained block.\<close>

function collect_props :: "string list \<Rightarrow> nat \<Rightarrow> string list \<Rightarrow> error + (string list \<times> nat)" where
  "collect_props lines i block =
     (if i < length lines then
        (case line_at lines i of
           Inl e \<Rightarrow> Inl e
         | Inr next_line \<Rightarrow>
             if startswith next_line ''#'' \<and> \<not> startswith next_line ''#EXTINF:''
             then collect_props lines (i + 1) (block @ [next_line])
             else Inr (block, i))
      else Inr (block, i))"
  by pat_completeness auto
termination
  by (relation "measure (\<lambda>(lines, i, block). length lines - i)") auto

declare skip_while.simps [simp del]
declare collect_props.simps [simp del]

lemma skip_while_ge: "skip_while lines i = Inr j \<Longrightarrow> i \<le> j"
proof (induction lines i rule: skip_while.induct)
  case (1 lines i)
  show ?case
  proof (cases "i < length lines \<and> (startswith (lines ! i) ''#'' \<or> strip (lines ! i) = [])")
    case True
    then have "skip_while lines i = skip_while lines (i + 1)"
      by (subst skip_while.simps) (simp add: line_at_def)
    then have "skip_while lines (i + 1) = Inr j"
      using "1.prems" by simp
    then have "i + 1 \<le> j"
      using "1.IH" True by (simp add: line_at_def)
    then show ?thesis by simp
  next
    case False
    then have "skip_while lines i = Inr i"
      by (subst skip_while.simps) (auto simp: line_at_def)
    then show ?thesis
      using "1.prems" by simp
  qed
qed

lemma skip_block_gt: "skip_block lines i = Inr j \<Longrightarrow> i < j"
proof -
  assume a: "skip_block lines i = Inr j"
  then obtain k where k: "skip_while lines (i + 1) = Inr k"
    by (auto simp: skip_block_def split: sum.splits)
  then have "i + 1 \<le> k" by (rule skip_while_ge)
  moreover have "j = k \<or> j = k + 1"
    using a k by (auto simp: skip_block_def line_at_def split: if_splits)
  ultimately show ?thesis by auto
qed

lemma collect_props_ge: "collect_props lines i block = Inr (b, j) \<Longrightarrow> i \<le> j"
proof (induction lines i block rule: collect_props.induct)
  case (1 lines i block)
  show ?case
  proof (cases "i < length lines \<and> startswith (lines ! i) ''#''
                \<and> \<not> startswith (lines ! i) ''#EXTINF:''")
    case True
    then have "collect_props lines i block = collect_props lines (i + 1) (block @ [lines ! i])"
      by (subst collect_props.simps) (simp add: line_at_def)
    then have "collect_props lines (i + 1) (block @ [lines ! i]) = Inr (b, j)"
      using "1.prems" by simp
    then have "i + 1 \<le> j"
      using "1.IH" True by (simp add: line_at_def)
    then show ?thesis by simp
  next
    case False
    then have "collect_props lines i block = Inr (block, i)"
      by (subst collect_props.simps) (auto simp: line_at_def)
    then show ?thesis
      using "1.prems" by simp
  qed
qed

text \<open>Lines 76 to 135: the main loop. Its state is the index and the dictionary.\<close>

function parse_loop :: "string list \<Rightarrow> nat \<Rightarrow> entries \<Rightarrow> error + entries" where
  "parse_loop lines i entries =
     (if i < length lines then
        (case line_at lines i of
           Inl e \<Rightarrow> Inl e
         | Inr line \<Rightarrow>
             if startswith line ''#EXTINF:'' then
               if is_excluded_group line then
                 (case skip_block lines i of
                    Inl e \<Rightarrow> Inl e
                  | Inr j \<Rightarrow> parse_loop lines j entries)
               else if is_excluded_language (extract_title line) then
                 (case skip_block lines i of
                    Inl e \<Rightarrow> Inl e
                  | Inr j \<Rightarrow> parse_loop lines j entries)
               else
                 (case collect_props lines (i + 1) [line] of
                    Inl e \<Rightarrow> Inl e
                  | Inr (block, j) \<Rightarrow>
                      if j < length lines then
                        (case line_at lines j of
                           Inl e \<Rightarrow> Inl e
                         | Inr url \<Rightarrow>
                             if url \<noteq> [] \<and> \<not> startswith url ''#'' then
                               parse_loop lines (j + 1)
                                 (if \<not> od_contains entries url then od_set entries url block
                                  else entries)
                             else parse_loop lines (j + 1) entries)
                      else parse_loop lines (j + 1) entries)
             else if line \<noteq> [] \<and> \<not> startswith line ''#'' then
               parse_loop lines (i + 1)
                 (if \<not> od_contains entries line then od_set entries line [] else entries)
             else parse_loop lines (i + 1) entries)
      else Inr entries)"
  by pat_completeness auto
termination
proof (relation "measure (\<lambda>(lines, i, entries). length lines - i)", goal_cases)
  case 1
  show ?case by simp
next
  case (2 lines i entries x2 x2a)
  then show ?case by (auto dest: skip_block_gt)
next
  case (3 lines i entries x2 x2a)
  then show ?case by (auto dest: skip_block_gt)
next
  case (4 lines i entries x2 x2a x1 x2b x2c)
  then show ?case by (auto dest: collect_props_ge)
next
  case (5 lines i entries x2 x2a x1 x2b)
  then show ?case by (auto dest: collect_props_ge)
next
  case (6 lines i entries x2 x2a x1 x2b)
  then show ?case by (auto dest: collect_props_ge)
next
  case (7 lines i entries x2)
  then show ?case by simp
next
  case (8 lines i entries x2)
  then show ?case by simp
qed

text \<open>Lines 64 to 137.\<close>

declare parse_loop.simps [simp del]

definition parse_m3u :: "string \<Rightarrow> error + entries" where
  "parse_m3u content =
     (if content = [] then Inr [] else parse_loop (split_nl content) 0 [])"

section \<open>The merger\<close>

text \<open>Lines 145 to 149: the inner loop over the items of one source mapping.\<close>

fun merge_entries :: "entries \<Rightarrow> entries \<Rightarrow> entries" where
  "merge_entries merged [] = merged"
| "merge_entries merged ((url, block) # es) =
     merge_entries (if \<not> od_contains merged url then od_set merged url block else merged) es"

text \<open>
  Lines 139 to 153. The argument is the list of items of the dictionary
  \<^verbatim>\<open>source_entries\<close>, in its insertion order; the labels are only printed.
\<close>

definition merge_m3us :: "('l, entries) odict \<Rightarrow> entries" where
  "merge_m3us source_entries =
     foldl (\<lambda>merged (source_name, entries). merge_entries merged entries) [] source_entries"

section \<open>The serializer\<close>

text \<open>
  Lines 155 to 163. The file is the text written so far; each \<^verbatim>\<open>f.write\<close> appends
  to it, and \<open>save_merged\<close> returns the text of the file when it is closed.
\<close>

fun write_block :: "string \<Rightarrow> string list \<Rightarrow> string" where
  "write_block f [] = f"
| "write_block f (b_line # block) = write_block (f @ b_line @ [CHR 0x0A]) block"

fun write_entries :: "string \<Rightarrow> entries \<Rightarrow> string" where
  "write_entries f [] = f"
| "write_entries f ((url, block) # merged) =
     write_entries (write_block f block @ url @ [CHR 0x0A]) merged"

definition header_line :: string where
  \<open>header_line = ''#EXTM3U url-tvg="'' @ EPG_URL @ ''"''\<close>

definition save_merged :: "entries \<Rightarrow> string" where
  "save_merged merged = write_entries (header_line @ [CHR 0x0A]) merged"

section \<open>The run\<close>

text \<open>
  Lines 34 to 41. The network is a parameter: it gives the decoded text of a source, or
  fails. Any failure is caught and turned into \<^verbatim>\<open>None\<close>.
\<close>

datatype fetch_error = FetchError

definition fetch_m3u :: "(string \<Rightarrow> fetch_error + string) \<Rightarrow> string \<Rightarrow> string option" where
  "fetch_m3u net url = (case net url of Inr text \<Rightarrow> Some text | Inl e \<Rightarrow> None)"

text \<open>
  Lines 168 to 177: the loop over the numbered sources. The label of a source embeds
  its number, so the labels of different sources differ; the number stands for the
  label. A content is used when it is truthy: neither \<^verbatim>\<open>None\<close> nor the empty text.
\<close>

fun load_sources ::
  "(string \<Rightarrow> fetch_error + string) \<Rightarrow> (nat \<times> string) list \<Rightarrow> (nat, entries) odict
     \<Rightarrow> error + (nat, entries) odict" where
  "load_sources net [] source_entries = Inr source_entries"
| "load_sources net ((i, url) # rest) source_entries =
     (case fetch_m3u net url of
        None \<Rightarrow> load_sources net rest source_entries
      | Some content \<Rightarrow>
          if content \<noteq> [] then
            (case parse_m3u content of
               Inl e \<Rightarrow> Inl e
             | Inr entries \<Rightarrow> load_sources net rest (od_set source_entries i entries))
          else load_sources net rest source_entries)"

text \<open>
  Lines 165 to 186. The result is the text written to the output file, or
  \<^verbatim>\<open>None\<close> when the run returns before anything is merged or written.
\<close>

definition main :: "(string \<Rightarrow> fetch_error + string) \<Rightarrow> error + string option" where
  "main net =
     (case load_sources net (enumerate 1 SOURCES) [] of
        Inl e \<Rightarrow> Inl e
      | Inr source_entries \<Rightarrow>
          if source_entries = [] then Inr None
          else Inr (Some (save_merged (merge_m3us source_entries))))"

section \<open>Reference functions in the words of the specification\<close>

text \<open>A list with every later duplicate of an earlier element removed.\<close>

fun dedup_first :: "'a list \<Rightarrow> 'a list" where
  "dedup_first [] = []"
| "dedup_first (x # xs) = x # dedup_first (filter (\<lambda>y. y \<noteq> x) xs)"

text \<open>
  The rendered document of section 4.3: the header line, then for every entry in order
  the lines of its block and its locator, every line ended by a newline.
\<close>

definition render_spec :: "string \<Rightarrow> entries \<Rightarrow> string" where
  "render_spec header merged =
     concat (map (\<lambda>l. l @ [CHR 0x0A])
       (header # concat (map (\<lambda>(url, block). block @ [url]) merged)))"

text \<open>What one numbered source adds to the dictionary of loaded sources: nothing when
  its fetch fails or returns the empty text, its parsed mapping otherwise.\<close>

definition source_contribution ::
  "(string \<Rightarrow> fetch_error + string) \<Rightarrow> nat \<times> string \<Rightarrow> (nat, entries) odict" where
  "source_contribution net s =
     (case net (snd s) of
        Inl e \<Rightarrow> []
      | Inr content \<Rightarrow>
          if content = [] then []
          else (case parse_m3u content of Inl e \<Rightarrow> [] | Inr entries \<Rightarrow> [(fst s, entries)]))"

section \<open>The parser as a function of the remaining lines\<close>

text \<open>
  The main loop only reads forward from its index, so its result is a function of the
  lines from the index on. \<open>parse_sfx\<close> is that function; it is proved equal to
  \<open>parse_loop\<close> below and is used to reason about documents.
\<close>

text \<open>The conditions of the loops at lines 85 and 110, and the guarded insertion of
  lines 120, 121 (and 130, 131).\<close>

definition is_skippable :: "string \<Rightarrow> bool" where
  "is_skippable l = (startswith l ''#'' \<or> strip l = [])"

definition is_prop :: "string \<Rightarrow> bool" where
  "is_prop l = (startswith l ''#'' \<and> \<not> startswith l ''#EXTINF:'')"

definition skip_sfx :: "string list \<Rightarrow> string list" where
  "skip_sfx ls =
     (case dropWhile is_skippable ls of
        [] \<Rightarrow> []
      | l # r \<Rightarrow> if \<not> startswith l ''#'' then r else l # r)"

definition add_first :: "entries \<Rightarrow> string \<Rightarrow> string list \<Rightarrow> entries" where
  "add_first entries url block =
     (if \<not> od_contains entries url then od_set entries url block else entries)"

lemma length_skip_sfx: "length (skip_sfx ls) \<le> length ls"
proof -
  have "length (dropWhile is_skippable ls) \<le> length ls"
    by (rule length_dropWhile_le)
  then show ?thesis
    by (auto simp: skip_sfx_def split: list.splits)
qed

function parse_sfx :: "string list \<Rightarrow> entries \<Rightarrow> entries" where
  "parse_sfx [] entries = entries"
| "parse_sfx (line # ls) entries =
     (if startswith line ''#EXTINF:'' then
        if is_excluded_group line \<or> is_excluded_language (extract_title line) then
          parse_sfx (skip_sfx ls) entries
        else
          (case dropWhile is_prop ls of
             [] \<Rightarrow> entries
           | url # r \<Rightarrow>
               if url \<noteq> [] \<and> \<not> startswith url ''#'' then
                 parse_sfx r (add_first entries url (line # takeWhile is_prop ls))
               else parse_sfx r entries)
      else if line \<noteq> [] \<and> \<not> startswith line ''#'' then
        parse_sfx ls (add_first entries line [])
      else parse_sfx ls entries)"
  by pat_completeness auto

termination
proof (relation "measure (\<lambda>(ls, entries). length ls)", goal_cases)
  case 1
  show ?case by simp
next
  case (2 line ls entries)
  then show ?case using length_skip_sfx [of ls] by simp
next
  case (3 line ls entries url r)
  have "length (dropWhile is_prop ls) \<le> length ls" by (rule length_dropWhile_le)
  then show ?case using 3 by simp
next
  case (4 line ls entries url r)
  have "length (dropWhile is_prop ls) \<le> length ls" by (rule length_dropWhile_le)
  then show ?case using 4 by simp
next
  case (5 line ls entries)
  then show ?case by simp
next
  case (6 line ls entries)
  then show ?case by simp
qed

declare parse_sfx.simps [simp del]

text \<open>The two tests of lines 81 and 95 taken together: the block of the directive
  line is skipped.\<close>

definition excluded :: "string \<Rightarrow> bool" where
  "excluded d = (is_excluded_group d \<or> is_excluded_language (extract_title d))"

text \<open>The number of positions of a line at which the attribute key stands, read
  without regard to case.\<close>

fun count_key :: "string \<Rightarrow> nat" where
  "count_key [] = 0"
| "count_key (c # cs) =
     (if startswith (lower (c # cs)) group_key then 1 else 0) + count_key cs"

text \<open>A line of characters below U+0080.\<close>

definition is_ascii :: "string \<Rightarrow> bool" where
  "is_ascii s = list_all (\<lambda>c. (of_char c :: nat) < 128) s"

section \<open>Example lines, documents and networks\<close>

text \<open>\<^verbatim>\<open>'\n'.join(lines)\<close>: the text whose lines are the given ones.\<close>

fun join_nl :: "string list \<Rightarrow> string" where
  "join_nl [] = []"
| "join_nl [l] = l"
| "join_nl (l # ls) = l @ CHR 0x0A # join_nl ls"

definition ex_espn :: string where
  \<open>ex_espn = ''#EXTINF:-1 group-title="Sports",ESPN''\<close>

definition ex_plain_directive :: string where
  "ex_plain_directive = ''#EXTINF:-1 ESPN''"

definition ex_prop :: string where
  "ex_prop = ''#KODIPROP:inputstream=adaptive''"

definition ex_url_c :: string where
  "ex_url_c = ''http://x/c''"

definition ex_music_a :: string where
  \<open>ex_music_a = ''#EXTINF:-1 group-title="Music",A''\<close>

definition ex_sports_b :: string where
  \<open>ex_sports_b = ''#EXTINF:-1 group-title="Sports",B''\<close>

definition ex_two_keys :: string where
  \<open>ex_two_keys = ''#EXTINF:-1 group-title="Sports",Top group-title="music" hits''\<close>

definition ex_comma_attr :: string where
  \<open>ex_comma_attr = ''#EXTINF:-1 group-title="News, Tamil",Star Sports 1''\<close>

definition ex_url_a :: string where
  "ex_url_a = ''http://x/a''"

definition ex_url_b :: string where
  "ex_url_b = ''http://x/b''"

text \<open>A network on which only the second source can be fetched.\<close>

definition ex_net :: "string \<Rightarrow> fetch_error + string" where
  "ex_net url =
     (if url = SOURCES ! 1 then Inr (join_nl [ex_sports_b, ex_url_b]) else Inl FetchError)"

lemmas ex_defs = ex_espn_def ex_plain_directive_def ex_prop_def ex_url_c_def

lemmas eval_defs =
  is_excluded_group_def is_excluded_language_def extract_title_def get_group_title_def
  lower_def lower_char_def latin1_upper_def latin1_lower_def EXCLUDED_GROUPS_def EXCLUDE_LANGUAGES_def group_key_def dquote_def
  strip_def is_space_def is_prop_def is_skippable_def excluded_def

lemmas ex2_defs = ex_music_a_def ex_sports_b_def ex_two_keys_def ex_comma_attr_def
  ex_url_a_def ex_url_b_def

section \<open>Facts about the model\<close>

lemma od_set_absent: "\<not> od_contains d k \<Longrightarrow> od_set d k v = d @ [(k, v)]"
  by (induction d) (auto simp: od_contains_def)

lemma od_contains_append: "od_contains (d @ e) k = (od_contains d k \<or> od_contains e k)"
  by (auto simp: od_contains_def)


lemma set_dedup_first: "set (dedup_first xs) = set xs"
  by (induction xs rule: dedup_first.induct) auto

lemma distinct_dedup_first: "distinct (dedup_first xs)"
  by (induction xs rule: dedup_first.induct) (auto simp: set_dedup_first)

lemma dedup_first_append:
  "dedup_first (xs @ ys) = dedup_first xs @ dedup_first (filter (\<lambda>y. y \<notin> set xs) ys)"
proof (induction xs arbitrary: ys rule: dedup_first.induct)
  case 1
  show ?case by simp
next
  case (2 x xs)
  have "dedup_first ((x # xs) @ ys)
          = x # dedup_first (filter (\<lambda>y. y \<noteq> x) xs @ filter (\<lambda>y. y \<noteq> x) ys)"
    by simp
  also have "\<dots> = x # (dedup_first (filter (\<lambda>y. y \<noteq> x) xs)
        @ dedup_first (filter (\<lambda>y. y \<notin> set (filter (\<lambda>y. y \<noteq> x) xs))
                         (filter (\<lambda>y. y \<noteq> x) ys)))"
    using "2.IH" by simp
  also have "filter (\<lambda>y. y \<notin> set (filter (\<lambda>y. y \<noteq> x) xs)) (filter (\<lambda>y. y \<noteq> x) ys)
               = filter (\<lambda>y. y \<notin> set (x # xs)) ys"
    by (auto intro: filter_cong)
  finally show ?case by simp
qed

lemma keys_merge_entries:
  "map fst (merge_entries merged es)
     = map fst merged @ dedup_first (filter (\<lambda>k. k \<notin> set (map fst merged)) (map fst es))"
proof (induction es arbitrary: merged)
  case Nil
  show ?case by simp
next
  case (Cons e es)
  obtain url block where e: "e = (url, block)" by (cases e)
  show ?case
  proof (cases "od_contains merged url")
    case True
    then show ?thesis
      using Cons.IH [of merged] by (simp add: e od_contains_def)
  next
    case False
    have "filter (\<lambda>k. k \<notin> set (map fst (merged @ [(url, block)]))) (map fst es)
            = filter (\<lambda>y. y \<noteq> url) (filter (\<lambda>k. k \<notin> set (map fst merged)) (map fst es))"
      by (auto intro: filter_cong)
    then show ?thesis
      using False Cons.IH [of "merged @ [(url, block)]"]
      by (simp add: e od_set_absent od_contains_def)
  qed
qed


lemma distinct_merge_entries:
  "distinct (map fst merged) \<Longrightarrow> distinct (map fst (merge_entries merged es))"
  by (auto simp: keys_merge_entries distinct_dedup_first set_dedup_first)

lemma foldl_merge_keys:
  "map fst (foldl (\<lambda>merged (source_name, entries). merge_entries merged entries) merged srcs)
     = map fst merged
       @ dedup_first (filter (\<lambda>k. k \<notin> set (map fst merged)) (concat (map (\<lambda>s. map fst (snd s)) srcs)))"
proof (induction srcs arbitrary: merged)
  case Nil
  show ?case by simp
next
  case (Cons s srcs)
  obtain name es where s: "s = (name, es)" by (cases s)
  let ?M = "set (map fst merged)"
  let ?a = "map fst es"
  let ?r = "concat (map (\<lambda>s. map fst (snd s)) srcs)"
  have k: "map fst (merge_entries merged es) = map fst merged @ dedup_first (filter (\<lambda>k. k \<notin> ?M) ?a)"
    by (rule keys_merge_entries)
  have "filter (\<lambda>k. k \<notin> set (map fst (merge_entries merged es))) ?r
          = filter (\<lambda>y. y \<notin> set (filter (\<lambda>k. k \<notin> ?M) ?a)) (filter (\<lambda>k. k \<notin> ?M) ?r)"
    unfolding k by (auto simp: set_dedup_first intro: filter_cong)
  then show ?case
    using Cons.IH [of "merge_entries merged es"]
    by (simp add: s k dedup_first_append)
qed


lemma write_block_eq: "write_block f block = f @ concat (map (\<lambda>l. l @ [CHR 0x0A]) block)"
  by (induction block arbitrary: f) auto

lemma write_entries_eq:
  "write_entries f merged
     = f @ concat (map (\<lambda>l. l @ [CHR 0x0A]) (concat (map (\<lambda>(url, block). block @ [url]) merged)))"
  by (induction merged arbitrary: f) (auto simp: write_block_eq)

lemma parse_sfx_excluded:
  "startswith line ''#EXTINF:'' \<Longrightarrow>
   is_excluded_group line \<or> is_excluded_language (extract_title line) \<Longrightarrow>
   parse_sfx (line # ls) e = parse_sfx (skip_sfx ls) e"
  by (simp add: parse_sfx.simps)

lemma parse_sfx_kept_end:
  "startswith line ''#EXTINF:'' \<Longrightarrow>
   \<not> (is_excluded_group line \<or> is_excluded_language (extract_title line)) \<Longrightarrow>
   dropWhile is_prop ls = [] \<Longrightarrow>
   parse_sfx (line # ls) e = e"
  by (simp add: parse_sfx.simps del: dropWhile_eq_Nil_conv)

lemma parse_sfx_kept_url:
  "startswith line ''#EXTINF:'' \<Longrightarrow>
   \<not> (is_excluded_group line \<or> is_excluded_language (extract_title line)) \<Longrightarrow>
   dropWhile is_prop ls = url # r \<Longrightarrow> url \<noteq> [] \<and> \<not> startswith url ''#'' \<Longrightarrow>
   parse_sfx (line # ls) e = parse_sfx r (add_first e url (line # takeWhile is_prop ls))"
  by (simp add: parse_sfx.simps)

lemma parse_sfx_kept_nourl:
  "startswith line ''#EXTINF:'' \<Longrightarrow>
   \<not> (is_excluded_group line \<or> is_excluded_language (extract_title line)) \<Longrightarrow>
   dropWhile is_prop ls = url # r \<Longrightarrow> \<not> (url \<noteq> [] \<and> \<not> startswith url ''#'') \<Longrightarrow>
   parse_sfx (line # ls) e = parse_sfx r e"
  by (auto simp: parse_sfx.simps)

lemma parse_sfx_plain:
  "\<not> startswith line ''#EXTINF:'' \<Longrightarrow> line \<noteq> [] \<and> \<not> startswith line ''#'' \<Longrightarrow>
   parse_sfx (line # ls) e = parse_sfx ls (add_first e line [])"
  by (simp add: parse_sfx.simps)

lemma parse_sfx_ignored:
  "\<not> startswith line ''#EXTINF:'' \<Longrightarrow> \<not> (line \<noteq> [] \<and> \<not> startswith line ''#'') \<Longrightarrow>
   parse_sfx (line # ls) e = parse_sfx ls e"
  by (auto simp: parse_sfx.simps)

lemma drop_takeWhile_dropWhile:
  "drop (i + length (takeWhile P (drop i xs))) xs = dropWhile P (drop i xs)"
proof -
  have "drop (length (takeWhile P (drop i xs))) (drop i xs) = dropWhile P (drop i xs)"
    by (simp add: dropWhile_eq_drop)
  then show ?thesis by (simp add: add.commute)
qed

lemma skip_while_eq:
  "skip_while lines i = Inr (i + length (takeWhile is_skippable (drop i lines)))"
proof (induction lines i rule: skip_while.induct)
  case (1 lines i)
  show ?case
  proof (cases "i < length lines")
    case False
    then show ?thesis by (subst skip_while.simps) simp
  next
    case True
    then have d: "drop i lines = lines ! i # drop (Suc i) lines"
      by (simp add: Cons_nth_drop_Suc)
    show ?thesis
    proof (cases "is_skippable (lines ! i)")
      case s: True
      then have "skip_while lines i = skip_while lines (i + 1)"
        using True by (subst skip_while.simps) (simp add: line_at_def is_skippable_def)
      also have "\<dots> = Inr (i + 1 + length (takeWhile is_skippable (drop (i + 1) lines)))"
      proof (rule "1.IH" [OF True])
        show "line_at lines i = Inr (lines ! i)" using True by (simp add: line_at_def)
        show "startswith (lines ! i) ''#'' \<or> strip (lines ! i) = []"
          using s by (simp add: is_skippable_def)
      qed
      finally show ?thesis using s by (simp add: d)
    next
      case s: False
      then have "skip_while lines i = Inr i"
        using True by (subst skip_while.simps) (simp add: line_at_def is_skippable_def)
      then show ?thesis using s by (simp add: d)
    qed
  qed
qed

lemma collect_props_eq:
  "collect_props lines i block
     = Inr (block @ takeWhile is_prop (drop i lines),
            i + length (takeWhile is_prop (drop i lines)))"
proof (induction lines i block rule: collect_props.induct)
  case (1 lines i block)
  show ?case
  proof (cases "i < length lines")
    case False
    then show ?thesis by (subst collect_props.simps) simp
  next
    case True
    then have d: "drop i lines = lines ! i # drop (Suc i) lines"
      by (simp add: Cons_nth_drop_Suc)
    show ?thesis
    proof (cases "is_prop (lines ! i)")
      case s: True
      then have "collect_props lines i block = collect_props lines (i + 1) (block @ [lines ! i])"
        using True by (subst collect_props.simps) (simp add: line_at_def is_prop_def)
      also have "\<dots> = Inr ((block @ [lines ! i]) @ takeWhile is_prop (drop (i + 1) lines),
                            i + 1 + length (takeWhile is_prop (drop (i + 1) lines)))"
      proof (rule "1.IH" [OF True])
        show "line_at lines i = Inr (lines ! i)" using True by (simp add: line_at_def)
        show "startswith (lines ! i) ''#'' \<and> \<not> startswith (lines ! i) ''#EXTINF:''"
          using s by (simp add: is_prop_def)
      qed
      finally show ?thesis using s by (simp add: d)
    next
      case s: False
      then have "collect_props lines i block = Inr (block, i)"
        using True by (subst collect_props.simps) (auto simp: line_at_def is_prop_def)
      then show ?thesis using s by (simp add: d)
    qed
  qed
qed

lemma skip_block_eq:
  "\<exists>j. skip_block lines i = Inr j \<and> i < j \<and> drop j lines = skip_sfx (drop (i + 1) lines)"
proof -
  let ?k = "i + 1 + length (takeWhile is_skippable (drop (i + 1) lines))"
  have k: "skip_while lines (i + 1) = Inr ?k" by (rule skip_while_eq)
  have dk: "drop ?k lines = dropWhile is_skippable (drop (i + 1) lines)"
    by (rule drop_takeWhile_dropWhile)
  show ?thesis
  proof (cases "?k < length lines")
    case False
    then have "drop ?k lines = []" by simp
    then have "skip_sfx (drop (i + 1) lines) = []"
      using dk by (simp add: skip_sfx_def)
    moreover have "skip_block lines i = Inr ?k"
      using False k by (simp add: skip_block_def)
    ultimately show ?thesis using False by simp
  next
    case True
    then have d: "drop ?k lines = lines ! ?k # drop (Suc ?k) lines"
      by (simp add: Cons_nth_drop_Suc)
    show ?thesis
    proof (cases "startswith (lines ! ?k) ''#''")
      case h: True
      have "skip_block lines i = Inr ?k"
        using True k h by (simp add: skip_block_def line_at_def)
      moreover have "skip_sfx (drop (i + 1) lines) = drop ?k lines"
        using dk d h by (simp add: skip_sfx_def)
      ultimately show ?thesis by simp
    next
      case h: False
      have "skip_block lines i = Inr (?k + 1)"
        using True k h by (simp add: skip_block_def line_at_def)
      moreover have "skip_sfx (drop (i + 1) lines) = drop (?k + 1) lines"
        using dk d h by (simp add: skip_sfx_def)
      ultimately show ?thesis by simp
    qed
  qed
qed

lemma parse_loop_sfx: "parse_loop lines i entries = Inr (parse_sfx (drop i lines) entries)"
proof (induction "length lines - i" arbitrary: i entries rule: less_induct)
  case less
  show ?case
  proof (cases "i < length lines")
    case False
    then show ?thesis
      by (subst parse_loop.simps) (simp add: parse_sfx.simps)
  next
    case True
    let ?line = "lines ! i"
    let ?ls = "drop (i + 1) lines"
    have d: "drop i lines = ?line # ?ls"
      using True by (simp add: Cons_nth_drop_Suc)
    have la: "line_at lines i = Inr ?line"
      using True by (simp add: line_at_def)
    have IH: "\<And>j e. i < j \<Longrightarrow> parse_loop lines j e = Inr (parse_sfx (drop j lines) e)"
      using True by (intro less) auto
    show ?thesis
    proof (cases "startswith ?line ''#EXTINF:''")
      case ext: True
      show ?thesis
      proof (cases "is_excluded_group ?line \<or> is_excluded_language (extract_title ?line)")
        case ex: True
        obtain j where j: "skip_block lines i = Inr j" "i < j"
          "drop j lines = skip_sfx ?ls"
          using skip_block_eq [of lines i] by blast
        have "parse_loop lines i entries = parse_loop lines j entries"
          using True la ext ex j(1) by (subst parse_loop.simps) auto
        also have "\<dots> = Inr (parse_sfx (skip_sfx ?ls) entries)"
          using IH [OF j(2)] j(3) by simp
        also have "parse_sfx (skip_sfx ?ls) entries = parse_sfx (?line # ?ls) entries"
          using parse_sfx_excluded [OF ext ex] by simp
        finally show ?thesis by (simp add: d)
      next
        case ex: False
        let ?n = "length (takeWhile is_prop ?ls)"
        let ?j = "i + 1 + ?n"
        let ?block = "?line # takeWhile is_prop ?ls"
        have cp: "collect_props lines (i + 1) [?line] = Inr (?block, ?j)"
          using collect_props_eq [of lines "i + 1" "[?line]"] by simp
        have dj: "drop ?j lines = dropWhile is_prop ?ls"
          by (rule drop_takeWhile_dropWhile)
        show ?thesis
        proof (cases "?j < length lines")
          case jl: False
          then have e: "dropWhile is_prop ?ls = []"
            using dj by simp
          have "parse_loop lines i entries = parse_loop lines (?j + 1) entries"
            using True la ext ex cp jl by (subst parse_loop.simps) auto
          also have "\<dots> = Inr entries"
            using jl by (subst parse_loop.simps) simp
          also have "Inr entries = Inr (parse_sfx (?line # ?ls) entries)"
            using parse_sfx_kept_end [OF ext ex e] by simp
          finally show ?thesis by (simp add: d)
        next
          case jl: True
          let ?url = "lines ! ?j"
          have dj': "dropWhile is_prop ?ls = ?url # drop (?j + 1) lines"
            using dj jl Cons_nth_drop_Suc [of ?j lines] by simp
          have lj: "line_at lines ?j = Inr ?url"
            using jl by (simp add: line_at_def)
          show ?thesis
          proof (cases "?url \<noteq> [] \<and> \<not> startswith ?url ''#''")
            case u: True
            have "parse_loop lines i entries
                    = parse_loop lines (?j + 1) (add_first entries ?url ?block)"
              using True la ext ex cp jl lj u
              by (subst parse_loop.simps) (auto simp: add_first_def)
            also have "\<dots> = Inr (parse_sfx (drop (?j + 1) lines) (add_first entries ?url ?block))"
              by (rule IH) simp
            also have "parse_sfx (drop (?j + 1) lines) (add_first entries ?url ?block)
                         = parse_sfx (?line # ?ls) entries"
              using parse_sfx_kept_url [OF ext ex dj' u] by simp
            finally show ?thesis by (simp add: d)
          next
            case u: False
            have "parse_loop lines i entries = parse_loop lines (?j + 1) entries"
              using True la ext ex cp jl lj u
              by (subst parse_loop.simps) auto
            also have "\<dots> = Inr (parse_sfx (drop (?j + 1) lines) entries)"
              by (rule IH) simp
            also have "parse_sfx (drop (?j + 1) lines) entries = parse_sfx (?line # ?ls) entries"
              using parse_sfx_kept_nourl [OF ext ex dj' u] by simp
            finally show ?thesis by (simp add: d)
          qed
        qed
      qed
    next
      case ext: False
      show ?thesis
      proof (cases "?line \<noteq> [] \<and> \<not> startswith ?line ''#''")
        case u: True
        have "parse_loop lines i entries = parse_loop lines (i + 1) (add_first entries ?line [])"
          using True la ext u by (subst parse_loop.simps) (auto simp: add_first_def)
        also have "\<dots> = Inr (parse_sfx ?ls (add_first entries ?line []))"
          by (rule IH) simp
        also have "parse_sfx ?ls (add_first entries ?line []) = parse_sfx (?line # ?ls) entries"
          using parse_sfx_plain [OF ext u] by simp
        finally show ?thesis by (simp add: d)
      next
        case u: False
        have "parse_loop lines i entries = parse_loop lines (i + 1) entries"
          using True la ext u by (subst parse_loop.simps) auto
        also have "\<dots> = Inr (parse_sfx ?ls entries)"
          by (rule IH) simp
        also have "parse_sfx ?ls entries = parse_sfx (?line # ?ls) entries"
          using parse_sfx_ignored [OF ext u] by simp
        finally show ?thesis by (simp add: d)
      qed
    qed
  qed
qed

lemma parse_m3u_sfx: "parse_m3u content = Inr (parse_sfx (split_nl content) [])"
proof (cases "content = []")
  case True
  have "parse_sfx [[]] [] = []"
    by (simp add: parse_sfx.simps)
  then show ?thesis using True by (simp add: parse_m3u_def)
next
  case False
  then show ?thesis by (simp add: parse_m3u_def parse_loop_sfx)
qed

lemma startswith_prefix: "startswith s p = prefix p s"
  by (induction s p rule: startswith.induct) auto

lemma str_contains_sublist: "str_contains s sub = sublist sub s"
proof (induction s)
  case Nil
  show ?case by simp
next
  case (Cons c cs)
  then show ?case
    by (simp add: startswith_prefix sublist_Cons_right)
qed

lemma str_contains_appendD: "str_contains s (a @ b) \<Longrightarrow> str_contains s a"
  unfolding str_contains_sublist sublist_def by (metis append.assoc)

lemma startswith_hash: "startswith l ''#'' = (l \<noteq> [] \<and> hd l = CHR ''#'')"
  by (cases l) auto

lemma startswith_extinf_hash: "startswith l ''#EXTINF:'' \<Longrightarrow> startswith l ''#''"
  by (cases l) auto

lemma re_group_title_None:
  "\<not> str_contains (lower l) group_key \<Longrightarrow> re_group_title l = None"
proof (induction l)
  case Nil
  show ?case by simp
next
  case (Cons c cs)
  then show ?case by (auto simp: lower_def)
qed

lemma re_title_None: "CHR '','' \<notin> set l \<Longrightarrow> re_title l = None"
  by (induction l) auto

lemma not_excluded_language_Nil: "\<not> is_excluded_language []"
  by (simp add: is_excluded_language_def EXCLUDE_LANGUAGES_def lower_def)

lemma strip_Nil: "strip [] = []"
  by (simp add: strip_def)

lemma props_split:
  assumes "list_all is_prop props" "\<not> is_prop u"
  shows "takeWhile is_prop (props @ u # rest) = props"
    and "dropWhile is_prop (props @ u # rest) = u # rest"
  using assms by (induction props) auto

lemma skippable_split:
  assumes "list_all is_skippable props" "\<not> is_skippable u"
  shows "dropWhile is_skippable (props @ u # rest) = u # rest"
  using assms by (induction props) auto

lemma is_prop_skippable: "list_all is_prop props \<Longrightarrow> list_all is_skippable props"
  by (induction props) (auto simp: is_prop_def is_skippable_def)

lemma kept_block_step:
  assumes d: "startswith d ''#EXTINF:''" and k: "\<not> excluded d"
    and p: "list_all is_prop props" and u: "u \<noteq> [] \<and> \<not> startswith u ''#''"
  shows "parse_sfx (d # props @ u # rest) e = parse_sfx rest (add_first e u (d # props))"
proof -
  have nu: "\<not> is_prop u" using u by (simp add: is_prop_def)
  have k': "\<not> (is_excluded_group d \<or> is_excluded_language (extract_title d))"
    using k by (simp add: excluded_def)
  show ?thesis
    using parse_sfx_kept_url [OF d k' props_split(2) [OF p nu] u]
    by (simp add: props_split(1) [OF p nu])
qed

lemma excluded_block_step:
  assumes d: "startswith d ''#EXTINF:''" and k: "excluded d"
    and p: "list_all is_skippable props" and u: "strip u \<noteq> [] \<and> \<not> startswith u ''#''"
  shows "parse_sfx (d # props @ u # rest) e = parse_sfx rest e"
proof -
  have nu: "\<not> is_skippable u" using u by (simp add: is_skippable_def)
  have k': "is_excluded_group d \<or> is_excluded_language (extract_title d)"
    using k by (simp add: excluded_def)
  have "skip_sfx (props @ u # rest) = rest"
    using u by (simp add: skip_sfx_def skippable_split [OF p nu])
  then show ?thesis
    using parse_sfx_excluded [OF d k'] by simp
qed

lemma blank_lines_step: "parse_sfx (replicate n [] @ ls) e = parse_sfx ls e"
  by (induction n) (auto simp: parse_sfx_ignored)

lemma blank_gap_step:
  assumes d: "startswith d ''#EXTINF:''" and k: "\<not> excluded d"
    and p: "list_all is_prop props" and u: "u \<noteq> [] \<and> \<not> startswith u ''#''"
  shows "parse_sfx (d # props @ [] # replicate n [] @ u # rest) e
           = parse_sfx rest (add_first e u [])"
proof -
  have ne: "\<not> is_prop []" by (simp add: is_prop_def)
  have k': "\<not> (is_excluded_group d \<or> is_excluded_language (extract_title d))"
    using k by (simp add: excluded_def)
  have ux: "\<not> startswith u ''#EXTINF:''"
    using u startswith_extinf_hash by blast
  have "parse_sfx (d # props @ [] # replicate n [] @ u # rest) e
          = parse_sfx (replicate n [] @ u # rest) e"
    by (rule parse_sfx_kept_nourl [OF d k' props_split(2) [OF p ne]]) simp
  also have "\<dots> = parse_sfx (u # rest) e"
    by (rule blank_lines_step)
  also have "\<dots> = parse_sfx rest (add_first e u [])"
    by (rule parse_sfx_plain [OF ux u])
  finally show ?thesis .
qed



lemma lower_char_dquote: "lower_char c = dquote \<longleftrightarrow> c = dquote"
  by (auto simp: lower_char_def latin1_upper_def latin1_lower_def dquote_def split: if_splits)

lemma lower_append: "lower (a @ b) = lower a @ lower b"
  by (simp add: lower_def)

lemma prefix_lower_take:
  assumes "startswith (lower s) p"
  shows "lower (take (length p) s) = p"
proof -
  obtain r where r: "lower s = p @ r"
    using assms by (auto simp: startswith_prefix prefix_def)
  have "lower (take (length p) s) = take (length p) (lower s)"
    by (simp add: lower_def take_map)
  then show ?thesis by (simp add: r)
qed

lemma re_group_title_Some:
  "re_group_title l = Some v \<Longrightarrow>
   \<exists>pre k post. l = pre @ k @ v @ dquote # post \<and> lower k = group_key"
proof (induction l)
  case Nil
  then show ?case by simp
next
  case (Cons c cs)
  let ?rest = "drop (length group_key) (c # cs)"
  let ?v = "takeWhile (\<lambda>x. x \<noteq> dquote) ?rest"
  show ?case
  proof (cases "startswith (lower (c # cs)) group_key \<and> length ?v < length ?rest")
    case True
    then have v: "v = ?v"
      using Cons.prems by (simp add: Let_def)
    let ?d = "dropWhile (\<lambda>x. x \<noteq> dquote) ?rest"
    have ne: "?d \<noteq> []"
    proof
      assume "?d = []"
      then have "?v = ?rest" by (metis append_Nil2 takeWhile_dropWhile_id)
      then have "length ?v = length ?rest" by (rule arg_cong)
      moreover have "length ?v < length ?rest" using True by (rule conjunct2)
      ultimately show False by linarith
    qed
    then have "hd ?d = dquote"
      using hd_dropWhile [of "\<lambda>x. x \<noteq> dquote" ?rest] by simp
    then have d: "?d = dquote # tl ?d"
      using ne by (cases ?d) auto
    have "c # cs = take (length group_key) (c # cs) @ ?rest"
      by (simp only: append_take_drop_id)
    also have "?rest = ?v @ ?d"
      by (simp only: takeWhile_dropWhile_id)
    finally have "c # cs = [] @ take (length group_key) (c # cs) @ v @ dquote # tl ?d"
      using d v by simp
    moreover have "lower (take (length group_key) (c # cs)) = group_key"
      using True by (intro prefix_lower_take) simp
    ultimately show ?thesis by blast
  next
    case False
    then have "re_group_title cs = Some v"
      using Cons.prems by (auto simp: Let_def split: if_splits)
    then obtain pre k post where "cs = pre @ k @ v @ dquote # post" "lower k = group_key"
      using Cons.IH by blast
    then have "c # cs = (c # pre) @ k @ v @ dquote # post \<and> lower k = group_key"
      by simp
    then show ?thesis by blast
  qed
qed

lemma is_excluded_group_iff:
  "is_excluded_group l
     = (\<exists>g \<in> set EXCLUDED_GROUPS. sublist (group_key @ g @ [dquote]) (lower l))"
  by (simp add: is_excluded_group_def list_ex_iff str_contains_sublist)

lemma get_group_title_excluded:
  assumes "get_group_title l \<in> set EXCLUDED_GROUPS"
  shows "is_excluded_group l"
proof -
  have "[] \<notin> set EXCLUDED_GROUPS" by (simp add: EXCLUDED_GROUPS_def)
  then obtain v where v: "re_group_title l = Some v"
    using assms by (cases "re_group_title l") (auto simp: get_group_title_def)
  then have g: "lower v \<in> set EXCLUDED_GROUPS"
    using assms by (simp add: get_group_title_def)
  obtain pre k post where l: "l = pre @ k @ v @ dquote # post" "lower k = group_key"
    using re_group_title_Some [OF v] by blast
  have "lower l = lower pre @ (group_key @ lower v @ [dquote]) @ lower post"
    using l by (simp add: lower_append) (simp add: lower_def lower_char_dquote)
  then have "sublist (group_key @ lower v @ [dquote]) (lower l)"
    unfolding sublist_def by blast
  then show ?thesis using g is_excluded_group_iff by blast
qed

lemma startswith_appendD: "startswith s (a @ b) \<Longrightarrow> startswith s a"
  by (auto simp: startswith_prefix prefix_def)

lemma group_key_not_Nil: "group_key \<noteq> []"
  by (simp add: group_key_def)

lemma count_key_ge1:
  "str_contains (lower l) (group_key @ x) \<Longrightarrow> 1 \<le> count_key l"
proof (induction l)
  case Nil
  then show ?case by (simp add: lower_def group_key_not_Nil)
next
  case (Cons c cs)
  show ?case
  proof (cases "startswith (lower (c # cs)) (group_key @ x)")
    case True
    then have "startswith (lower (c # cs)) group_key" by (rule startswith_appendD)
    then show ?thesis by simp
  next
    case False
    then have "str_contains (lower cs) (group_key @ x)"
      using Cons.prems by (simp add: lower_def)
    then show ?thesis using Cons.IH by simp
  qed
qed

lemma takeWhile_value:
  "lower rest = g @ dquote # r \<Longrightarrow> dquote \<notin> set g \<Longrightarrow>
   lower (takeWhile (\<lambda>x. x \<noteq> dquote) rest) = g
   \<and> length (takeWhile (\<lambda>x. x \<noteq> dquote) rest) < length rest"
proof (induction g arbitrary: rest)
  case Nil
  then obtain x xs where "rest = x # xs" "lower_char x = dquote"
    by (cases rest) (auto simp: lower_def)
  then show ?case by (simp add: lower_char_dquote lower_def)
next
  case (Cons a g)
  then obtain x xs where x: "rest = x # xs" "lower_char x = a" "lower xs = g @ dquote # r"
    by (cases rest) (auto simp: lower_def)
  have "a \<noteq> dquote" using Cons.prems(2) by auto
  then have "x \<noteq> dquote"
    using x(2) lower_char_dquote [of x] by blast
  moreover have "lower (takeWhile (\<lambda>x. x \<noteq> dquote) xs) = g
      \<and> length (takeWhile (\<lambda>x. x \<noteq> dquote) xs) < length xs"
    using Cons.IH [OF x(3)] Cons.prems(2) by simp
  ultimately show ?case using x by (simp add: lower_def)
qed

lemma re_group_title_unique_key:
  "str_contains (lower l) (group_key @ g @ [dquote]) \<Longrightarrow> dquote \<notin> set g \<Longrightarrow>
   count_key l \<le> 1 \<Longrightarrow> \<exists>v. re_group_title l = Some v \<and> lower v = g"
proof (induction l)
  case Nil
  then show ?case by (simp add: lower_def group_key_not_Nil)
next
  case (Cons c cs)
  let ?rest = "drop (length group_key) (c # cs)"
  show ?case
  proof (cases "startswith (lower (c # cs)) (group_key @ g @ [dquote])")
    case True
    then obtain r where r: "lower (c # cs) = group_key @ g @ dquote # r"
      by (auto simp: startswith_prefix prefix_def)
    have k: "startswith (lower (c # cs)) group_key"
      using True by (rule startswith_appendD)
    have "lower ?rest = drop (length group_key) (lower (c # cs))"
      unfolding lower_def by (rule drop_map [symmetric])
    then have "lower ?rest = g @ dquote # r"
      by (simp only: r) simp
    then have "lower (takeWhile (\<lambda>x. x \<noteq> dquote) ?rest) = g
        \<and> length (takeWhile (\<lambda>x. x \<noteq> dquote) ?rest) < length ?rest"
      using Cons.prems(2) by (rule takeWhile_value)
    then show ?thesis
      using k by (simp add: Let_def)
  next
    case False
    then have c: "str_contains (lower cs) (group_key @ g @ [dquote])"
      using Cons.prems(1) by (simp add: lower_def)
    then have "1 \<le> count_key cs" by (rule count_key_ge1)
    then have n: "\<not> startswith (lower (c # cs)) group_key" "count_key cs \<le> 1"
      using Cons.prems(3) by (auto split: if_splits)
    obtain v where "re_group_title cs = Some v \<and> lower v = g"
      using Cons.IH [OF c Cons.prems(2) n(2)] by blast
    then show ?thesis using n(1) by simp
  qed
qed

lemma excluded_group_unique_key:
  assumes "is_excluded_group l" "count_key l \<le> 1"
  shows "get_group_title l \<in> set EXCLUDED_GROUPS"
proof -
  obtain g where g: "g \<in> set EXCLUDED_GROUPS"
    "str_contains (lower l) (group_key @ g @ [dquote])"
    using assms(1) by (auto simp: is_excluded_group_def list_ex_iff)
  have "dquote \<notin> set g"
    using g(1) by (auto simp: EXCLUDED_GROUPS_def dquote_def)
  then obtain v where "re_group_title l = Some v \<and> lower v = g"
    using re_group_title_unique_key [OF g(2) _ assms(2)] by blast
  then show ?thesis using g(1) by (simp add: get_group_title_def)
qed

lemma load_sources_total: "\<exists>loaded. load_sources net srcs se = Inr loaded"
proof (induction srcs arbitrary: se)
  case Nil
  show ?case by simp
next
  case (Cons s srcs)
  obtain i url where s: "s = (i, url)" by (cases s)
  show ?case
  proof (cases "fetch_m3u net url")
    case None
    then show ?thesis using Cons.IH [of se] by (simp add: s)
  next
    case (Some content)
    show ?thesis
    proof (cases "content = []")
      case True
      then show ?thesis using Some Cons.IH [of se] by (simp add: s)
    next
      case False
      then show ?thesis
        using Some Cons.IH [of "od_set se i (parse_sfx (split_nl content) [])"]
        by (simp add: s parse_m3u_sfx)
    qed
  qed
qed



lemma load_sources_eq:
  "distinct (map fst srcs) \<Longrightarrow> set (map fst srcs) \<inter> set (map fst se) = {} \<Longrightarrow>
   load_sources net srcs se = Inr (se @ concat (map (source_contribution net) srcs))"
proof (induction srcs arbitrary: se)
  case Nil
  show ?case by simp
next
  case (Cons s srcs)
  obtain i url where s: "s = (i, url)" by (cases s)
  have d: "distinct (map fst srcs)" and i: "i \<notin> set (map fst srcs)" "i \<notin> set (map fst se)"
    and dj: "set (map fst srcs) \<inter> set (map fst se) = {}"
    using Cons.prems by (auto simp: s)
  show ?case
  proof (cases "net url")
    case (Inl e)
    then show ?thesis
      using Cons.IH [OF d dj] by (simp add: s fetch_m3u_def source_contribution_def)
  next
    case (Inr content)
    show ?thesis
    proof (cases "content = []")
      case True
      then show ?thesis
        using Inr Cons.IH [OF d dj] by (simp add: s fetch_m3u_def source_contribution_def)
    next
      case False
      let ?e = "parse_sfx (split_nl content) []"
      have o: "od_set se i ?e = se @ [(i, ?e)]"
        using i(2) by (simp add: od_set_absent od_contains_def)
      have "set (map fst srcs) \<inter> set (map fst (se @ [(i, ?e)])) = {}"
        using dj i(1) by auto
      then have "load_sources net srcs (se @ [(i, ?e)])
          = Inr ((se @ [(i, ?e)]) @ concat (map (source_contribution net) srcs))"
        by (rule Cons.IH [OF d])
      moreover have "source_contribution net (i, url) = [(i, ?e)]"
        using Inr False by (simp add: source_contribution_def parse_m3u_sfx)
      moreover have "load_sources net ((i, url) # srcs) se
          = load_sources net srcs (od_set se i ?e)"
        using Inr False by (simp add: fetch_m3u_def parse_m3u_sfx)
      ultimately show ?thesis
        using o by (simp add: s)
    qed
  qed
qed

lemma main_eq:
  "main net =
     (let loaded = concat (map (source_contribution net) (enumerate 1 SOURCES))
      in if loaded = [] then Inr None else Inr (Some (save_merged (merge_m3us loaded))))"
proof -
  have "load_sources net (enumerate 1 SOURCES) []
          = Inr ([] @ concat (map (source_contribution net) (enumerate 1 SOURCES)))"
    by (rule load_sources_eq) simp_all
  then show ?thesis by (simp add: main_def Let_def)
qed

lemma contribution_Nil:
  "source_contribution net s = [] \<longleftrightarrow> (case net (snd s) of Inl e \<Rightarrow> True | Inr c \<Rightarrow> c = [])"
  by (auto simp: source_contribution_def parse_m3u_sfx split: sum.splits)

lemma set_skip_sfx: "set (skip_sfx ls) \<subseteq> set ls"
proof (cases "dropWhile is_skippable ls")
  case Nil
  show ?thesis unfolding skip_sfx_def Nil by simp
next
  case (Cons l r)
  have "set (l # r) \<subseteq> set ls"
    using Cons set_dropWhileD [of _ is_skippable ls] by (metis subsetI)
  then show ?thesis unfolding skip_sfx_def Cons by auto
qed

lemma parse_sfx_invariant:
  assumes step: "\<And>e u b. Q e \<Longrightarrow> u \<in> S \<Longrightarrow> Q (add_first e u b)"
  shows "set ls \<subseteq> S \<Longrightarrow> Q e \<Longrightarrow> Q (parse_sfx ls e)"
proof (induction ls e rule: parse_sfx.induct)
  case (1 entries)
  then show ?case by (simp add: parse_sfx.simps)
next
  case (2 line ls entries)
  have sub: "set ls \<subseteq> S" and mem: "line \<in> S" using "2.prems"(1) by auto
  show ?case
  proof (cases "startswith line ''#EXTINF:''")
    case ext: True
    show ?thesis
    proof (cases "is_excluded_group line \<or> is_excluded_language (extract_title line)")
      case ex: True
      have "set (skip_sfx ls) \<subseteq> S" using set_skip_sfx sub by blast
      then have "Q (parse_sfx (skip_sfx ls) entries)"
        using "2.IH"(1) [OF ext ex] "2.prems"(2) by blast
      then show ?thesis using parse_sfx_excluded [OF ext ex] by simp
    next
      case ex: False
      show ?thesis
      proof (cases "dropWhile is_prop ls")
        case Nil
        then show ?thesis using parse_sfx_kept_end [OF ext ex Nil] "2.prems"(2) by simp
      next
        case (Cons url r)
        have "set (url # r) \<subseteq> set ls"
          using Cons set_dropWhileD [of _ is_prop ls] by (metis subsetI)
        then have ur: "url \<in> S" "set r \<subseteq> S" using sub by auto
        show ?thesis
        proof (cases "url \<noteq> [] \<and> \<not> startswith url ''#''")
          case u: True
          have "Q (add_first entries url (line # takeWhile is_prop ls))"
            using step "2.prems"(2) ur(1) by blast
          then have "Q (parse_sfx r (add_first entries url (line # takeWhile is_prop ls)))"
            using "2.IH"(2) [OF ext ex Cons u] ur(2) by blast
          then show ?thesis using parse_sfx_kept_url [OF ext ex Cons u] by simp
        next
          case u: False
          have "Q (parse_sfx r entries)"
            using "2.IH"(3) [OF ext ex Cons u] ur(2) "2.prems"(2) by blast
          then show ?thesis using parse_sfx_kept_nourl [OF ext ex Cons u] by simp
        qed
      qed
    qed
  next
    case ext: False
    show ?thesis
    proof (cases "line \<noteq> [] \<and> \<not> startswith line ''#''")
      case u: True
      have "Q (add_first entries line [])"
        using step "2.prems"(2) mem by blast
      then have "Q (parse_sfx ls (add_first entries line []))"
        using "2.IH"(4) [OF ext u] sub by blast
      then show ?thesis using parse_sfx_plain [OF ext u] by simp
    next
      case u: False
      have "Q (parse_sfx ls entries)"
        using "2.IH"(5) [OF ext u] sub "2.prems"(2) by blast
      then show ?thesis using parse_sfx_ignored [OF ext u] by simp
    qed
  qed
qed

lemma add_first_cases:
  "add_first e u b = (if od_contains e u then e else e @ [(u, b)])"
  by (simp add: add_first_def od_set_absent)


lemma parse_sfx_keys:
  "set (map fst (parse_sfx ls e)) \<subseteq> set (map fst e) \<union> set ls"
proof (rule parse_sfx_invariant
    [where S = "set ls" and Q = "\<lambda>x. set (map fst x) \<subseteq> set (map fst e) \<union> set ls"])
  fix x :: entries and u b
  assume "set (map fst x) \<subseteq> set (map fst e) \<union> set ls" "u \<in> set ls"
  then show "set (map fst (add_first x u b)) \<subseteq> set (map fst e) \<union> set ls"
    by (auto simp: add_first_cases)
qed simp_all

lemma drop_block:
  assumes "drop i lines = pre @ rest"
  shows "drop (i + length pre) lines = rest"
proof -
  have "drop (i + length pre) lines = drop (length pre) (drop i lines)"
    by (simp add: add.commute)
  then show ?thesis by (simp add: assms)
qed



lemma is_excluded_language_iff:
  "is_excluded_language t = (\<exists>tok \<in> set EXCLUDE_LANGUAGES. sublist tok (lower t))"
  by (simp add: is_excluded_language_def list_ex_iff str_contains_sublist)

lemma excluded_directive_loop_step:
  assumes "i < length lines" and "startswith (lines ! i) ''#EXTINF:''"
    and "is_excluded_group (lines ! i) \<or> is_excluded_language (extract_title (lines ! i))"
  shows "\<exists>j. i < j \<and> parse_loop lines i entries = parse_loop lines j entries"
proof -
  obtain j where j: "skip_block lines i = Inr j" "i < j"
    "drop j lines = skip_sfx (drop (i + 1) lines)"
    using skip_block_eq [of lines i] by blast
  have d: "drop i lines = lines ! i # drop (i + 1) lines"
    using assms(1) by (simp add: Cons_nth_drop_Suc)
  have "parse_loop lines i entries = Inr (parse_sfx (lines ! i # drop (i + 1) lines) entries)"
    by (simp only: parse_loop_sfx d)
  also have "\<dots> = Inr (parse_sfx (skip_sfx (drop (i + 1) lines)) entries)"
    by (simp only: parse_sfx_excluded [OF assms(2) assms(3)])
  also have "\<dots> = parse_loop lines j entries"
    by (simp only: parse_loop_sfx j(3))
  finally show ?thesis using j(2) by blast
qed

lemma excluded_block_loop_step:
  assumes "drop i lines = d # props @ u # rest"
    and "startswith d ''#EXTINF:''"
    and "is_excluded_group d \<or> is_excluded_language (extract_title d)"
    and "list_all is_skippable props"
    and "strip u \<noteq> []" and "\<not> startswith u ''#''"
  shows "parse_loop lines i entries = parse_loop lines (i + length props + 2) entries"
    and "\<not> od_contains entries u \<Longrightarrow> u \<notin> set rest \<Longrightarrow>
         parse_loop lines i entries = Inr m \<Longrightarrow> u \<notin> set (map fst m)"
proof -
  have k: "excluded d" using assms(3) by (simp add: excluded_def)
  have u: "strip u \<noteq> [] \<and> \<not> startswith u ''#''" using assms(5,6) by simp
  have "drop i lines = (d # props @ [u]) @ rest" using assms(1) by simp
  then have "drop (i + length (d # props @ [u])) lines = rest" by (rule drop_block)
  then have r: "drop (i + length props + 2) lines = rest" by simp
  have a: "parse_loop lines i entries = Inr (parse_sfx (d # props @ u # rest) entries)"
    by (simp only: parse_loop_sfx assms(1))
  also have b: "\<dots> = Inr (parse_sfx rest entries)"
    by (simp only: excluded_block_step [OF assms(2) k assms(4) u])
  also have "\<dots> = parse_loop lines (i + length props + 2) entries"
    by (simp only: parse_loop_sfx r)
  finally show "parse_loop lines i entries = parse_loop lines (i + length props + 2) entries" .
  assume n: "\<not> od_contains entries u" "u \<notin> set rest" and m: "parse_loop lines i entries = Inr m"
  have "m = parse_sfx rest entries" using a b m by simp
  then have "set (map fst m) \<subseteq> set (map fst entries) \<union> set rest"
    using parse_sfx_keys [of rest entries] by simp
  then show "u \<notin> set (map fst m)"
    using n by (auto simp: od_contains_def)
qed

section \<open>Claim C1\<close>




section \<open>Claim C2\<close>

text \<open>
  Claim C2. For every ordered sequence of source mappings, the iteration order of the
  merged mapping is the concatenation of the sources' locators, each source in its
  insertion order and the sources in priority order, with every later duplicate of an
  earlier locator removed: a locator keeps its first position.
\<close>

theorem C2_merge_order:
  "map fst (merge_m3us source_entries)
     = dedup_first (concat (map (\<lambda>s. map fst (snd s)) source_entries))"
  using foldl_merge_keys [of "[]" source_entries] by (simp add: merge_m3us_def)

section \<open>Claim C3\<close>

text \<open>
  Claim C3, as amended. The category test of a directive line is a substring test: the
  line is excluded exactly when its lowercased text contains the attribute key, an
  excluded category and a closing quote in a row. For a line of ASCII characters, the
  extracted category (the value of the first quoted attribute whose key matches
  without regard to case, lowercased) is empty when the key is absent; a line whose
  extracted category is an excluded category is excluded; and when the key stands at
  one position of the line at most, the line is excluded exactly when its extracted
  category is an excluded category.
\<close>

theorem C3_category_test:
  "is_excluded_group l
     = (\<exists>g \<in> set EXCLUDED_GROUPS. sublist (group_key @ g @ [dquote]) (lower l))
   \<and> (is_ascii l \<and> \<not> str_contains (lower l) group_key \<longrightarrow> get_group_title l = [])
   \<and> (is_ascii l \<and> get_group_title l \<in> set EXCLUDED_GROUPS \<longrightarrow> is_excluded_group l)
   \<and> (is_ascii l \<and> count_key l \<le> 1 \<longrightarrow>
        is_excluded_group l = (get_group_title l \<in> set EXCLUDED_GROUPS))"
proof (intro conjI impI)
  show "is_excluded_group l
     = (\<exists>g \<in> set EXCLUDED_GROUPS. sublist (group_key @ g @ [dquote]) (lower l))"
    by (rule is_excluded_group_iff)
next
  assume "is_ascii l \<and> \<not> str_contains (lower l) group_key"
  then show "get_group_title l = []"
    by (simp add: get_group_title_def re_group_title_None)
next
  assume "is_ascii l \<and> get_group_title l \<in> set EXCLUDED_GROUPS"
  then show "is_excluded_group l" using get_group_title_excluded by blast
next
  assume "is_ascii l \<and> count_key l \<le> 1"
  then show "is_excluded_group l = (get_group_title l \<in> set EXCLUDED_GROUPS)"
    using excluded_group_unique_key get_group_title_excluded by blast
qed

theorem C3_category_test_witness:
  "get_group_title ex_plain_directive = []
   \<and> get_group_title ex_music_a \<in> set EXCLUDED_GROUPS
   \<and> is_excluded_group ex_music_a
   \<and> count_key ex_sports_b \<le> 1
   \<and> \<not> is_excluded_group ex_sports_b"
proof -
  have a: "is_ascii ex_plain_directive" "is_ascii ex_music_a" "is_ascii ex_sports_b"
    by code_simp+
  have h1: "\<not> str_contains (lower ex_plain_directive) group_key" by code_simp
  have h2: "get_group_title ex_music_a \<in> set EXCLUDED_GROUPS" by code_simp
  have h3: "count_key ex_sports_b \<le> 1" by code_simp
  have h4: "get_group_title ex_sports_b \<notin> set EXCLUDED_GROUPS" by code_simp
  show ?thesis
    using C3_category_test [of ex_plain_directive] C3_category_test [of ex_music_a]
      C3_category_test [of ex_sports_b] a h1 h2 h3 h4
    by blast
qed

text \<open>
  The claim as stated fails on a line that carries the key twice: the extracted
  category is that of the first attribute, and it is not an excluded category, but the
  line is excluded because an excluded category follows a later occurrence of the key.
\<close>

theorem C3_counterexample:
  "get_group_title ex_two_keys \<notin> set EXCLUDED_GROUPS \<and> is_excluded_group ex_two_keys"
  by code_simp

section \<open>Claim C4\<close>

text \<open>
  Claim C4 says that the title is what follows the last comma of the directive line.
  The search of the source matches at the first comma: on a line whose category
  attribute holds a comma, the title starts inside the attribute, and a language token
  there excludes a block whose trailing title holds none.
\<close>

theorem C4_title_after_first_comma:
  \<open>extract_title ex_comma_attr = ''Tamil",Star Sports 1''
   \<and> is_excluded_language (extract_title ex_comma_attr)
   \<and> \<not> is_excluded_language ''Star Sports 1''
   \<and> parse_m3u (join_nl [ex_comma_attr, ex_url_a]) = Inr []\<close>
proof -
  have t: \<open>extract_title ex_comma_attr = ''Tamil",Star Sports 1''\<close>
    by code_simp
  have x: "is_excluded_language (extract_title ex_comma_attr)"
    unfolding t by (simp add: eval_defs)
  have n: "\<not> is_excluded_language ''Star Sports 1''"
    by (simp add: eval_defs)
  have s: "split_nl (join_nl [ex_comma_attr, ex_url_a]) = [ex_comma_attr] @ [] @ ex_url_a # []"
    by (simp add: ex2_defs)
  have d: "startswith ex_comma_attr ''#EXTINF:''" by (simp add: ex2_defs)
  have u: "strip ex_url_a \<noteq> [] \<and> \<not> startswith ex_url_a ''#''"
    by code_simp
  have "parse_sfx (ex_comma_attr # [] @ ex_url_a # []) [] = parse_sfx [] []"
    by (rule excluded_block_step [OF d _ _ u]) (simp_all add: excluded_def x)
  then have "parse_m3u (join_nl [ex_comma_attr, ex_url_a]) = Inr []"
    unfolding parse_m3u_sfx s by (simp add: parse_sfx.simps(1))
  then show ?thesis using t x n by simp
qed

section \<open>Claim C5\<close>

text \<open>
  Claim C5 says that the skip of an excluded block swallows no later directive. The
  skip loop of the source passes over every line that starts with the marker
  character, directive lines included (the loop that collects the attribute lines of
  a retained block stops at a directive). An excluded directive with no locator of its
  own therefore takes the next block with it: the block of the second directive below
  is retained when it stands alone, and lost when it follows the excluded directive.
\<close>

theorem C5_skip_swallows_next_block:
  "parse_m3u (join_nl [ex_sports_b, ex_url_b]) = Inr [(ex_url_b, [ex_sports_b])]
   \<and> parse_m3u (join_nl [ex_music_a, ex_sports_b, ex_url_b]) = Inr []"
proof -
  have s1: "split_nl (join_nl [ex_sports_b, ex_url_b]) = ex_sports_b # [] @ ex_url_b # []"
    by (simp add: ex2_defs)
  have s2: "split_nl (join_nl [ex_music_a, ex_sports_b, ex_url_b])
              = ex_music_a # [ex_sports_b] @ ex_url_b # []"
    by (simp add: ex2_defs)
  have db: "startswith ex_sports_b ''#EXTINF:''" by (simp add: ex2_defs)
  have da: "startswith ex_music_a ''#EXTINF:''" by (simp add: ex2_defs)
  have kb: "\<not> excluded ex_sports_b" by code_simp
  have ka: "excluded ex_music_a" by code_simp
  have sb: "list_all is_skippable [ex_sports_b]" by code_simp
  have u: "strip ex_url_b \<noteq> [] \<and> \<not> startswith ex_url_b ''#''"
    by code_simp
  have u': "ex_url_b \<noteq> [] \<and> \<not> startswith ex_url_b ''#''"
    by (simp add: ex2_defs)
  have "parse_sfx (ex_sports_b # [] @ ex_url_b # []) []
          = parse_sfx [] (add_first [] ex_url_b (ex_sports_b # []))"
    by (rule kept_block_step [OF db kb _ u']) simp
  then have 1: "parse_m3u (join_nl [ex_sports_b, ex_url_b]) = Inr [(ex_url_b, [ex_sports_b])]"
    unfolding parse_m3u_sfx s1 by (simp add: parse_sfx.simps(1) add_first_def od_contains_def)
  have "parse_sfx (ex_music_a # [ex_sports_b] @ ex_url_b # []) [] = parse_sfx [] []"
    by (rule excluded_block_step [OF da ka sb u])
  then have 2: "parse_m3u (join_nl [ex_music_a, ex_sports_b, ex_url_b]) = Inr []"
    unfolding parse_m3u_sfx s2 by (simp add: parse_sfx.simps(1))
  show ?thesis using 1 2 by simp
qed

section \<open>Claim C6\<close>

text \<open>
  Claim C6, as amended. The language test is a substring test on the lowercased title,
  with no word boundaries. Whenever the scan reaches a directive line that passes the
  category test or whose title passes the language test, it moves on to a later line
  with the mapping unchanged: nothing is inserted for the block. When the directive is
  followed by lines that start with the marker or are blank and then by a locator that
  is not blank, the scan goes on right after that locator, and the locator is absent
  from the returned mapping provided it is not a key already and is not a later line
  of the document.
\<close>

theorem C6_excluded_block_inserts_nothing:
  "is_excluded_language t = (\<exists>tok \<in> set EXCLUDE_LANGUAGES. sublist tok (lower t))
   \<and> (i < length lines \<and> startswith (lines ! i) ''#EXTINF:''
        \<and> (is_excluded_group (lines ! i) \<or> is_excluded_language (extract_title (lines ! i)))
        \<longrightarrow> (\<exists>j. i < j \<and> parse_loop lines i entries = parse_loop lines j entries))
   \<and> (drop k ls = d # props @ u # rest \<and> startswith d ''#EXTINF:''
        \<and> (is_excluded_group d \<or> is_excluded_language (extract_title d))
        \<and> list_all is_skippable props \<and> strip u \<noteq> [] \<and> \<not> startswith u ''#'' \<longrightarrow>
        parse_loop ls k es = parse_loop ls (k + length props + 2) es
        \<and> (\<not> od_contains es u \<and> u \<notin> set rest \<and> parse_loop ls k es = Inr m \<longrightarrow>
             u \<notin> set (map fst m)))"
proof (intro conjI impI)
  show "is_excluded_language t = (\<exists>tok \<in> set EXCLUDE_LANGUAGES. sublist tok (lower t))"
    by (rule is_excluded_language_iff)
next
  assume "i < length lines \<and> startswith (lines ! i) ''#EXTINF:''
        \<and> (is_excluded_group (lines ! i) \<or> is_excluded_language (extract_title (lines ! i)))"
  then show "\<exists>j. i < j \<and> parse_loop lines i entries = parse_loop lines j entries"
    using excluded_directive_loop_step by blast
next
  assume h: "drop k ls = d # props @ u # rest \<and> startswith d ''#EXTINF:''
        \<and> (is_excluded_group d \<or> is_excluded_language (extract_title d))
        \<and> list_all is_skippable props \<and> strip u \<noteq> [] \<and> \<not> startswith u ''#''"
  then show "parse_loop ls k es = parse_loop ls (k + length props + 2) es"
    using excluded_block_loop_step(1) by blast
  assume "\<not> od_contains es u \<and> u \<notin> set rest \<and> parse_loop ls k es = Inr m"
  then show "u \<notin> set (map fst m)"
    using h excluded_block_loop_step(2) by blast
qed

theorem C6_excluded_block_inserts_nothing_witness:
  "is_excluded_language ''Asianet Malayalamplus''
   \<and> (\<exists>j. 0 < j \<and> parse_loop [ex_music_a, ex_prop, [], ex_url_a, ex_sports_b, ex_url_b] 0 []
                 = parse_loop [ex_music_a, ex_prop, [], ex_url_a, ex_sports_b, ex_url_b] j [])
   \<and> parse_loop [ex_music_a, ex_prop, [], ex_url_a, ex_sports_b, ex_url_b] 0 []
       = parse_loop [ex_music_a, ex_prop, [], ex_url_a, ex_sports_b, ex_url_b] 4 []
   \<and> ex_url_a \<notin> set (map fst [(ex_url_b, [ex_sports_b])])"
proof -
  let ?doc = "[ex_music_a, ex_prop, [], ex_url_a, ex_sports_b, ex_url_b]"
  note t = C6_excluded_block_inserts_nothing [where t = "''Asianet Malayalamplus''"
      and lines = ?doc and i = 0 and entries = "[]"
      and ls = ?doc and k = 0 and es = "[]" and d = ex_music_a and props = "[ex_prop, []]"
      and u = ex_url_a and rest = "[ex_sports_b, ex_url_b]"
      and m = "[(ex_url_b, [ex_sports_b])]"]
  have l: "\<exists>tok \<in> set EXCLUDE_LANGUAGES. sublist tok (lower ''Asianet Malayalamplus'')"
    by code_simp
  have h0: "0 < length ?doc" by simp
  have h1: "startswith (?doc ! 0) ''#EXTINF:''" by code_simp
  have h2: "is_excluded_group (?doc ! 0) \<or> is_excluded_language (extract_title (?doc ! 0))"
    by code_simp
  have g1: "drop 0 ?doc = ex_music_a # [ex_prop, []] @ ex_url_a # [ex_sports_b, ex_url_b]"
    by simp
  have g2: "startswith ex_music_a ''#EXTINF:''" by code_simp
  have g3: "is_excluded_group ex_music_a \<or> is_excluded_language (extract_title ex_music_a)"
    by code_simp
  have g4: "list_all is_skippable [ex_prop, []]" by code_simp
  have g5: "strip ex_url_a \<noteq> []" "\<not> startswith ex_url_a ''#''" by code_simp+
  have g6: "\<not> od_contains ([] :: entries) ex_url_a" by (simp add: od_contains_def)
  have g7: "ex_url_a \<notin> set [ex_sports_b, ex_url_b]" by code_simp
  have g8: "parse_loop ?doc 0 [] = Inr [(ex_url_b, [ex_sports_b])]" by code_simp
  have 1: "is_excluded_language ''Asianet Malayalamplus''"
    using t [THEN conjunct1] l by blast
  have 2: "\<exists>j. 0 < j \<and> parse_loop ?doc 0 [] = parse_loop ?doc j []"
    by (rule t [THEN conjunct2, THEN conjunct1, THEN mp]) (intro conjI h0 h1 h2)
  have 3: "parse_loop ?doc 0 [] = parse_loop ?doc (0 + length [ex_prop, []] + 2) []
        \<and> (\<not> od_contains ([] :: entries) ex_url_a \<and> ex_url_a \<notin> set [ex_sports_b, ex_url_b]
             \<and> parse_loop ?doc 0 [] = Inr [(ex_url_b, [ex_sports_b])] \<longrightarrow>
             ex_url_a \<notin> set (map fst [(ex_url_b, [ex_sports_b])]))"
    by (rule t [THEN conjunct2, THEN conjunct2, THEN mp]) (intro conjI g1 g2 g3 g4 g5)
  then have 4: "ex_url_a \<notin> set (map fst [(ex_url_b, [ex_sports_b])])"
    using g6 g7 g8 by blast
  have e: "(0::nat) + length [ex_prop, []] + 2 = 4" by simp
  have 5: "parse_loop ?doc 0 [] = parse_loop ?doc 4 []"
    using 3 unfolding e by blast
  show ?thesis using 1 2 4 5 by blast
qed

text \<open>
  The claim as stated fails when the locator of an excluded block is also the locator
  of a block that is retained: the mapping is keyed by locator, and the key is present
  with the block of the other occurrence.
\<close>

theorem C6_counterexample:
  "get_group_title ex_music_a \<in> set EXCLUDED_GROUPS
   \<and> is_excluded_group ex_music_a
   \<and> parse_m3u (join_nl [ex_music_a, ex_url_a, ex_sports_b, ex_url_a])
       = Inr [(ex_url_a, [ex_sports_b])]"
  by code_simp

text \<open>
  Where the scan does not reach the directive: a retained directive with no locator of
  its own makes the loop step over the line that follows it (line 126), also when that
  line is the directive of an excluded block, and the locator of that block is then
  inserted as a plain entry.
\<close>

lemma excluded_locator_after_unfinished_block:
  "parse_m3u (join_nl [ex_sports_b, ex_music_a, ex_url_a]) = Inr [(ex_url_a, [])]"
  by code_simp

section \<open>Claim C7\<close>

text \<open>
  Claim C7, as amended. A source whose fetch fails, or returns the empty text, adds
  nothing, and the sources after it are still fetched, parsed and merged: the run
  merges and writes the parsed mappings of the other sources, in priority order. The
  run ends without merging or writing exactly when every source fails or returns the
  empty text; a fetch that returns a text that is not empty always leads to an output.
\<close>

theorem C7_fetch_failures:
  "main net =
     (let loaded = concat (map (source_contribution net) (enumerate 1 SOURCES))
      in if loaded = [] then Inr None else Inr (Some (save_merged (merge_m3us loaded))))
   \<and> (main net = Inr None)
       = (\<forall>url \<in> set SOURCES. case net url of Inl e \<Rightarrow> True | Inr content \<Rightarrow> content = [])
   \<and> (net url = Inl e \<longrightarrow>
        load_sources net ((i, url) # rest) source_entries
          = load_sources net rest source_entries)"
proof -
  let ?loaded = "concat (map (source_contribution net) (enumerate 1 SOURCES))"
  have "(?loaded = []) = (\<forall>s \<in> set (enumerate 1 SOURCES). source_contribution net s = [])"
    by auto
  also have "\<dots> = (\<forall>s \<in> set (enumerate 1 SOURCES).
                     case net (snd s) of Inl e \<Rightarrow> True | Inr c \<Rightarrow> c = [])"
    by (simp add: contribution_Nil)
  also have "\<dots> = (\<forall>url \<in> snd ` set (enumerate 1 SOURCES).
                     case net url of Inl e \<Rightarrow> True | Inr c \<Rightarrow> c = [])"
    by simp
  also have "snd ` set (enumerate 1 SOURCES) = set SOURCES"
    by (metis list.set_map map_snd_enumerate)
  finally have l: "(?loaded = [])
      = (\<forall>url \<in> set SOURCES. case net url of Inl e \<Rightarrow> True | Inr c \<Rightarrow> c = [])" .
  have "(main net = Inr None) = (?loaded = [])"
    by (simp add: main_eq Let_def)
  then show ?thesis
    using l main_eq [of net] by (simp add: fetch_m3u_def)
qed

theorem C7_fetch_failures_witness:
  "main ex_net = Inr (Some (save_merged [(ex_url_b, [ex_sports_b])]))
   \<and> main ex_net \<noteq> Inr None
   \<and> load_sources ex_net [(1, SOURCES ! 0), (2, SOURCES ! 1)] []
       = load_sources ex_net [(2, SOURCES ! 1)] []"
proof -
  have l: "concat (map (source_contribution ex_net) (enumerate 1 SOURCES))
             = [(2, [(ex_url_b, [ex_sports_b])])]"
    by code_simp
  have m: "merge_m3us [(2::nat, [(ex_url_b, [ex_sports_b])])] = [(ex_url_b, [ex_sports_b])]"
    by code_simp
  have f: "ex_net (SOURCES ! 0) = Inl FetchError"
    by code_simp
  note t = C7_fetch_failures [of ex_net "SOURCES ! 0" FetchError 1 "[(2, SOURCES ! 1)]" "[]"]
  have 1: "main ex_net = Inr (Some (save_merged [(ex_url_b, [ex_sports_b])]))"
    using t [THEN conjunct1] unfolding l Let_def m by simp
  have 2: "main ex_net \<noteq> Inr None"
    using 1 by simp
  have 3: "load_sources ex_net [(1, SOURCES ! 0), (2, SOURCES ! 1)] []
             = load_sources ex_net [(2, SOURCES ! 1)] []"
    using t [THEN conjunct2, THEN conjunct2] f by (rule mp)
  show ?thesis using 1 2 3 by blast
qed

text \<open>
  The claim as stated fails when every fetch succeeds with the empty text: no source
  has failed, but the run ends without merging or writing.
\<close>

theorem C7_counterexample:
  "main (\<lambda>url. Inr []) = Inr None"
  by (simp add: main_eq Let_def source_contribution_def)

section \<open>Claim C8\<close>

text \<open>
  Claim C8. The text written by the serializer is the header line that embeds the
  configured metadata reference, followed for each entry, in the order of the merged
  mapping, by the lines of its block as stored and then its locator line; nothing else
  is written, and an entry with an empty block contributes its locator line only.
\<close>

theorem C8_save_merged_render:
  "save_merged merged = render_spec header_line merged
   \<and> sublist EPG_URL header_line
   \<and> CHR 0x0A \<notin> set header_line
   \<and> save_merged (merged @ [(url, [])]) = save_merged merged @ url @ [CHR 0x0A]"
proof -
  have "sublist EPG_URL header_line"
    unfolding header_line_def by (rule sublist_appendI)
  moreover have "CHR 0x0A \<notin> set header_line"
    by (simp add: header_line_def EPG_URL_def)
  ultimately show ?thesis
    by (simp add: save_merged_def render_spec_def write_entries_eq)
qed

section \<open>Claim C9\<close>

text \<open>
  Claim C9. For every text the parser returns a mapping and raises nothing, and no
  error leaves a run either; the merger has no operation that can fail. A directive
  line without the category attribute has the empty category and is not excluded by
  category, one without a comma has the empty title and is not excluded by language,
  and the block of such a line is retained like any other.
\<close>

theorem C9_no_exception:
  "(\<exists>entries. parse_m3u content = Inr entries)
   \<and> (\<exists>out. main net = Inr out)
   \<and> (\<not> str_contains (lower line) group_key \<longrightarrow>
        get_group_title line = [] \<and> \<not> is_excluded_group line)
   \<and> (CHR '','' \<notin> set line \<longrightarrow>
        extract_title line = [] \<and> \<not> is_excluded_language (extract_title line))
   \<and> (split_nl content = d # props @ [url] \<and> startswith d ''#EXTINF:''
        \<and> \<not> str_contains (lower d) group_key \<and> CHR '','' \<notin> set d
        \<and> list_all is_prop props \<and> url \<noteq> [] \<and> \<not> startswith url ''#'' \<longrightarrow>
        parse_m3u content = Inr [(url, d # props)])"
proof -
  have nokey: "\<not> is_excluded_group l" if "\<not> str_contains (lower l) group_key" for l
    using that str_contains_appendD [of "lower l" group_key]
    by (auto simp: is_excluded_group_def list_ex_iff)
  have nocomma: "extract_title l = []" if "CHR '','' \<notin> set l" for l
    using that by (simp add: extract_title_def re_title_None)
  have 1: "\<exists>entries. parse_m3u content = Inr entries"
    by (simp add: parse_m3u_sfx)
  have 2: "\<exists>out. main net = Inr out"
    using load_sources_total [of net "enumerate 1 SOURCES" "[]"]
    by (auto simp: main_def)
  have 3: "\<not> str_contains (lower line) group_key \<longrightarrow>
        get_group_title line = [] \<and> \<not> is_excluded_group line"
    using nokey by (simp add: get_group_title_def re_group_title_None)
  have 4: "CHR '','' \<notin> set line \<longrightarrow>
        extract_title line = [] \<and> \<not> is_excluded_language (extract_title line)"
    using nocomma not_excluded_language_Nil by simp
  have 5: "parse_m3u content = Inr [(url, d # props)]"
    if h: "split_nl content = d # props @ [url]" "startswith d ''#EXTINF:''"
      "\<not> str_contains (lower d) group_key" "CHR '','' \<notin> set d"
      "list_all is_prop props" "url \<noteq> [] \<and> \<not> startswith url ''#''"
  proof -
    have k: "\<not> excluded d"
      using nokey [OF h(3)] nocomma [OF h(4)] not_excluded_language_Nil
      by (simp add: excluded_def)
    have "parse_sfx (d # props @ url # []) [] = parse_sfx [] (add_first [] url (d # props))"
      by (rule kept_block_step [OF h(2) k h(5) h(6)])
    then show ?thesis
      unfolding parse_m3u_sfx h(1)
      by (simp add: parse_sfx.simps(1) add_first_def od_contains_def)
  qed
  show ?thesis using 1 2 3 4 5 by blast
qed

theorem C9_no_exception_witness:
  "(\<exists>entries. parse_m3u (join_nl [ex_plain_directive, ex_prop, ex_url_c]) = Inr entries)
   \<and> get_group_title ex_plain_directive = []
   \<and> \<not> is_excluded_group ex_plain_directive
   \<and> extract_title ex_plain_directive = []
   \<and> parse_m3u (join_nl [ex_plain_directive, ex_prop, ex_url_c])
       = Inr [(ex_url_c, [ex_plain_directive, ex_prop])]"
proof -
  have h1: "\<not> str_contains (lower ex_plain_directive) group_key" by code_simp
  have h2: "CHR '','' \<notin> set ex_plain_directive" by code_simp
  have h3: "split_nl (join_nl [ex_plain_directive, ex_prop, ex_url_c])
              = ex_plain_directive # [ex_prop] @ [ex_url_c]" by code_simp
  have h4: "startswith ex_plain_directive ''#EXTINF:''" by code_simp
  have h5: "list_all is_prop [ex_prop]" by code_simp
  have h6: "ex_url_c \<noteq> []" "\<not> startswith ex_url_c ''#''" by code_simp+
  show ?thesis
    using C9_no_exception [of "join_nl [ex_plain_directive, ex_prop, ex_url_c]" _
        ex_plain_directive ex_plain_directive "[ex_prop]" ex_url_c]
      h1 h2 h3 h4 h5 h6
    by simp
qed

section \<open>Claim C10\<close>

text \<open>
  Claim C10, as amended. Whenever the main loop stands at a directive that is not
  excluded, followed by its attribute lines, then by one or more empty lines, then by a
  locator, it goes on after the locator with the dictionary unchanged but for the
  locator, which is appended with an empty block when it is not yet a key: the
  directive and attribute lines are stored nowhere.
\<close>

theorem C10_blank_line_gap:
  assumes "drop i lines = d # props @ [] # replicate n [] @ u # rest"
    and "startswith d ''#EXTINF:''"
    and "\<not> is_excluded_group d" and "\<not> is_excluded_language (extract_title d)"
    and "list_all is_prop props"
    and "u \<noteq> []" and "\<not> startswith u ''#''"
  shows "parse_loop lines i entries
           = parse_loop lines (i + length props + n + 3)
               (if od_contains entries u then entries else entries @ [(u, [])])"
proof -
  have k: "\<not> excluded d" using assms(3,4) by (simp add: excluded_def)
  have u: "u \<noteq> [] \<and> \<not> startswith u ''#''" using assms(6,7) by simp
  have "drop (i + length props + n + 3) lines = drop (length props + n + 3) (drop i lines)"
    by (simp add: add.commute add.left_commute)
  also have "\<dots> = rest"
  proof -
    let ?pre = "d # props @ [] # replicate n [] @ [u]"
    have g: "drop (length ?pre) (?pre @ rest) = rest"
      by (metis append_eq_conv_conj)
    have l: "length ?pre = length props + n + 3" by simp
    have e: "drop i lines = ?pre @ rest" using assms(1) by simp
    show ?thesis by (simp only: e l [symmetric] g)
  qed
  finally have r: "drop (i + length props + n + 3) lines = rest" .
  have a: "add_first entries u [] = (if od_contains entries u then entries else entries @ [(u, [])])"
    by (simp add: add_first_def od_set_absent)
  have "parse_loop lines i entries = Inr (parse_sfx rest (add_first entries u []))"
    using blank_gap_step [OF assms(2) k assms(5) u, of n rest entries]
    by (simp add: parse_loop_sfx assms(1))
  then show ?thesis
    by (simp add: parse_loop_sfx r a)
qed

theorem C10_blank_line_gap_witness:
  "parse_loop [ex_espn, ex_prop, [], ex_url_c] 0 []
     = parse_loop [ex_espn, ex_prop, [], ex_url_c] 4 [(ex_url_c, [])]
   \<and> parse_loop [ex_espn, ex_prop, [], ex_url_c] 0 [] = Inr [(ex_url_c, [])]"
proof -
  have h1: "drop 0 [ex_espn, ex_prop, [], ex_url_c]
              = ex_espn # [ex_prop] @ [] # replicate 0 [] @ ex_url_c # []"
    by simp
  have h2: "startswith ex_espn ''#EXTINF:''" by (simp add: ex_defs)
  have h3: "\<not> is_excluded_group ex_espn" by (simp add: ex_defs eval_defs)
  have h4: "\<not> is_excluded_language (extract_title ex_espn)" by (simp add: ex_defs eval_defs)
  have h5: "list_all is_prop [ex_prop]" by (simp add: ex_defs eval_defs)
  have h6: "ex_url_c \<noteq> []" by (simp add: ex_defs)
  have h7: "\<not> startswith ex_url_c ''#''" by (simp add: ex_defs)
  have "parse_loop [ex_espn, ex_prop, [], ex_url_c] 0 []
          = parse_loop [ex_espn, ex_prop, [], ex_url_c] 4 [(ex_url_c, [])]"
    using C10_blank_line_gap [OF h1 h2 h3 h4 h5 h6 h7, of "[]"]
    by (simp add: od_contains_def)
  moreover have "parse_loop [ex_espn, ex_prop, [], ex_url_c] 4 [(ex_url_c, [])]
                   = Inr [(ex_url_c, [])]"
    by (subst parse_loop.simps) simp
  ultimately show ?thesis by simp
qed

text \<open>
  The claim as stated also covers a separating line that holds only whitespace. Such a
  line is not empty, so the parser takes it as the locator of the block: the block is
  stored under it, not discarded.
\<close>

theorem C10_counterexample:
  "parse_loop [ex_espn, ex_prop, ''  '', ex_url_c] 0 []
     = Inr [(''  '', [ex_espn, ex_prop]), (ex_url_c, [])]"
proof -
  have k: "\<not> excluded ex_espn" by (simp add: ex_defs eval_defs)
  have p: "list_all is_prop [ex_prop]" by (simp add: ex_defs eval_defs)
  have u: "''  '' \<noteq> [] \<and> \<not> startswith ''  '' ''#''" by simp
  have x: "\<not> startswith ex_url_c ''#EXTINF:''" "ex_url_c \<noteq> [] \<and> \<not> startswith ex_url_c ''#''"
    by (simp_all add: ex_defs)
  have "parse_sfx (ex_espn # [ex_prop] @ ''  '' # [ex_url_c]) []
          = parse_sfx [ex_url_c] (add_first [] ''  '' (ex_espn # [ex_prop]))"
    by (rule kept_block_step [OF _ k p u]) (simp add: ex_defs)
  also have "\<dots> = parse_sfx [] (add_first (add_first [] ''  '' (ex_espn # [ex_prop])) ex_url_c [])"
    by (rule parse_sfx_plain [OF x])
  also have "\<dots> = [(''  '', [ex_espn, ex_prop]), (ex_url_c, [])]"
    by (simp add: parse_sfx.simps add_first_def od_contains_def ex_url_c_def)
  finally show ?thesis by (simp add: parse_loop_sfx)
qed

end
